theory Spec2Isabelle
  imports Main
begin

section \<open>The client-side router of \<open>04.solution.history/src/index.js\<close>\<close>

text \<open>
  The \<open>Root\<close> component owns the ref \<open>latestNav\<close> and the state cells
  \<open>nextLocation\<close> and \<open>contentPromise\<close>, and talks to two browser facilities: the
  session history (\<open>window.history\<close>) and the network (\<open>fetch\<close>).  Everything runs on
  one event loop, so the model is a state record and one function per handler; an
  asynchronous fetch is an entry of the state that a later \<open>Settle\<close> event completes.
  A state setter (\<open>setNextLocation\<close>, \<open>setContentPromise\<close>) is an assignment to its
  cell: the cell holds the value most recently set.  The flag \<open>isPending\<close> is computed by
  the rendering library's \<open>useTransition\<close>, never by this module, and is not part of
  the state.
\<close>

subsection \<open>Browser session history\<close>

type_synonym location = string

datatype hist_call = PushState location | ReplaceState location

text \<open>
  The session history is never empty and always has a current entry, so it is kept as
  the entries behind the current one (nearest first), the current one, and the
  entries ahead of it.  \<open>h_calls\<close> records every invocation of
  \<open>window.history.pushState\<close> / \<open>replaceState\<close> in order.
\<close>

record history =
  h_back :: "location list"
  h_current :: location
  h_forward :: "location list"
  h_calls :: "hist_call list"

definition pushState :: "location \<Rightarrow> history \<Rightarrow> history" where
  "pushState loc h =
     \<lparr>h_back = h_current h # h_back h, h_current = loc, h_forward = [],
      h_calls = h_calls h @ [PushState loc]\<rparr>"

definition replaceState :: "location \<Rightarrow> history \<Rightarrow> history" where
  "replaceState loc h = h\<lparr>h_current := loc, h_calls := h_calls h @ [ReplaceState loc]\<rparr>"

text \<open>The browser's own traversal (back and forward buttons); \<open>None\<close> when there is
  no entry to move to, in which case no \<open>popstate\<close> event is fired.\<close>

definition go_back :: "history \<Rightarrow> history option" where
  "go_back h =
     (case h_back h of
        [] \<Rightarrow> None
      | b # bs \<Rightarrow> Some (h\<lparr>h_back := bs, h_current := b, h_forward := h_current h # h_forward h\<rparr>))"

definition go_forward :: "history \<Rightarrow> history option" where
  "go_forward h =
     (case h_forward h of
        [] \<Rightarrow> None
      | f # fs \<Rightarrow> Some (h\<lparr>h_back := h_current h # h_back h, h_current := f, h_forward := fs\<rparr>))"

text \<open>Modelled from the spec: \<open>getGlobalLocation\<close> is imported from \<open>./router.js\<close>,
  which is not among the sources; the specification's Location Model says it is a pure,
  synchronous read of the live browser address state.\<close>

definition getGlobalLocation :: "history \<Rightarrow> location" where
  "getGlobalLocation h = h_current h"

subsection \<open>Promises and the network\<close>

datatype 'a promise = Pending | Fulfilled 'a | Rejected

record response =
  status :: nat
  resp_url :: string

definition ok :: "response \<Rightarrow> bool" where
  "ok r = (200 \<le> status r \<and> status r < 300)"

datatype jsval = Response response | Undefined

text \<open>What the network eventually does with one request.\<close>

datatype net_outcome = NetworkFailure | HttpResponse nat

text \<open>The browser's \<open>fetch\<close>: its promise rejects on a network failure and is fulfilled
  with the response for every HTTP status.\<close>

fun fetch_result :: "string \<Rightarrow> net_outcome \<Rightarrow> response promise" where
  "fetch_result u NetworkFailure = Rejected"
| "fetch_result u (HttpResponse st) = Fulfilled \<lparr>status = st, resp_url = u\<rparr>"

datatype symbol = Symbol nat string

fun sym_id :: "symbol \<Rightarrow> nat" where
  "sym_id (Symbol n d) = n"

text \<open>
  One outbound request together with what the module chained onto it:
  \<open>url\<close> is the request path, \<open>fetched\<close> the promise returned by \<open>fetch\<close>,
  \<open>handler\<close> the closure of the \<open>.then\<close> callback of \<open>navigate\<close>
  (\<open>thisNav\<close>, \<open>nextLocation\<close>, \<open>replace\<close>) or \<open>None\<close> when the fetch promise is
  handed on as it is, and \<open>content\<close> the promise that \<open>createFromFetch\<close> receives.
  A request is named by its position in the list of all requests issued so far; the
  content promise made from it carries the same name.
\<close>

record request =
  url :: string
  handler :: "(symbol \<times> location \<times> bool) option"
  fetched :: "response promise"
  content :: "jsval promise"

definition fetch :: "string \<Rightarrow> request list \<Rightarrow> nat \<times> request list" where
  "fetch u net =
     (length net, net @ [\<lparr>url = u, handler = None, fetched = Pending, content = Pending\<rparr>])"

definition fetchContent :: "location \<Rightarrow> request list \<Rightarrow> nat \<times> request list" where
  "fetchContent location net = fetch (''/rsc'' @ location) net"

text \<open>\<open>promise.then(callback)\<close>, for a promise that has not settled yet.\<close>

definition then_handler :: "nat \<Rightarrow> symbol \<times> location \<times> bool \<Rightarrow> request list \<Rightarrow> request list" where
  "then_handler p cb net = net[p := (net ! p)\<lparr>handler := Some cb\<rparr>]"

subsection \<open>The \<open>Root\<close> component\<close>

record root =
  latestNav :: "symbol option"
  nextLocation :: location
  contentPromise :: nat
  window_history :: history
  network :: "request list"
  symbols :: nat

text \<open>Module start and first render: the initial content is fetched for the location
  of the address bar, \<open>latestNav\<close> starts as \<open>null\<close>.\<close>

definition init :: "history \<Rightarrow> root" where
  "init w =
     (let initialLocation = getGlobalLocation w;
          (initialContentPromise, net) = fetchContent initialLocation []
      in \<lparr>latestNav = None, nextLocation = getGlobalLocation w,
          contentPromise = initialContentPromise, window_history = w,
          network = net, symbols = 0\<rparr>)"

definition handlePopState :: "root \<Rightarrow> root" where
  "handlePopState s =
     (let nextLoc = getGlobalLocation (window_history s);
          s1 = s\<lparr>nextLocation := nextLoc\<rparr>;
          (fetchPromise, net) = fetchContent nextLoc (network s1);
          nextContentPromise = fetchPromise
      in s1\<lparr>network := net, contentPromise := nextContentPromise\<rparr>)"

record options =
  replace :: "bool option"

text \<open>The parameter pattern \<open>{ replace = false } = {}\<close>.\<close>

definition replace_of :: "options option \<Rightarrow> bool" where
  "replace_of opts =
     (case opts of
        None \<Rightarrow> False
      | Some o1 \<Rightarrow> (case replace o1 of None \<Rightarrow> False | Some b \<Rightarrow> b))"

definition navigate :: "root \<Rightarrow> location \<Rightarrow> options option \<Rightarrow> root" where
  "navigate s nextLoc opts =
     (let rep = replace_of opts;
          s1 = s\<lparr>nextLocation := nextLoc\<rparr>;
          thisNav = Symbol (symbols s1) (''Nav for '' @ nextLoc);
          s2 = s1\<lparr>symbols := Suc (symbols s1), latestNav := Some thisNav\<rparr>;
          (fetchPromise, net) = fetchContent nextLoc (network s2);
          net' = then_handler fetchPromise (thisNav, nextLoc, rep) net;
          nextContentPromise = fetchPromise
      in s2\<lparr>network := net', contentPromise := nextContentPromise\<rparr>)"

text \<open>The callback \<open>response => { ... }\<close> of \<open>navigate\<close>, run when the fetch is
  fulfilled; it returns the value its promise is fulfilled with.\<close>

definition on_response :: "symbol \<Rightarrow> location \<Rightarrow> bool \<Rightarrow> response \<Rightarrow> root \<Rightarrow> jsval \<times> root" where
  "on_response thisNav nextLoc rep resp s =
     (if Some thisNav \<noteq> latestNav s then (Undefined, s)
      else if rep
        then (Response resp, s\<lparr>window_history := replaceState nextLoc (window_history s)\<rparr>)
        else (Response resp, s\<lparr>window_history := pushState nextLoc (window_history s)\<rparr>))"

text \<open>The network completes request \<open>p\<close>.  A promise settles once, so a request that is
  unknown or already settled is left alone.  A rejection skips the \<open>.then\<close> callback
  and rejects the content promise.\<close>

definition settle :: "root \<Rightarrow> nat \<Rightarrow> net_outcome \<Rightarrow> root" where
  "settle s p out =
     (if p < length (network s) \<and> fetched (network s ! p) = Pending then
        (let f = network s ! p in
         case fetch_result (url f) out of
           Pending \<Rightarrow> s
         | Rejected \<Rightarrow>
             s\<lparr>network := (network s)[p := f\<lparr>fetched := Rejected, content := Rejected\<rparr>]\<rparr>
         | Fulfilled resp \<Rightarrow>
             (case handler f of
                None \<Rightarrow>
                  s\<lparr>network := (network s)
                       [p := f\<lparr>fetched := Fulfilled resp, content := Fulfilled (Response resp)\<rparr>]\<rparr>
              | Some (thisNav, nextLoc, rep) \<Rightarrow>
                  (let (v, s') = on_response thisNav nextLoc rep resp s
                   in s'\<lparr>network := (network s')
                          [p := f\<lparr>fetched := Fulfilled resp, content := Fulfilled v\<rparr>]\<rparr>)))
      else s)"

subsection \<open>Events and runs\<close>

datatype event =
    Navigate location "options option"
  | Back
  | Forward
  | Settle nat net_outcome

fun step :: "root \<Rightarrow> event \<Rightarrow> root" where
  "step s (Navigate loc opts) = navigate s loc opts"
| "step s Back =
     (case go_back (window_history s) of
        None \<Rightarrow> s
      | Some w \<Rightarrow> handlePopState (s\<lparr>window_history := w\<rparr>))"
| "step s Forward =
     (case go_forward (window_history s) of
        None \<Rightarrow> s
      | Some w \<Rightarrow> handlePopState (s\<lparr>window_history := w\<rparr>))"
| "step s (Settle p out) = settle s p out"

definition run :: "root \<Rightarrow> event list \<Rightarrow> root" where
  "run s es = foldl step s es"

text \<open>What the error boundary sees: \<open>use(contentPromise)\<close> throws when the installed
  content promise is rejected.\<close>

definition error_surfaced :: "root \<Rightarrow> bool" where
  "error_surfaced s = (content (network s ! contentPromise s) = Rejected)"


subsection \<open>Observations and invariants\<close>

text \<open>What a navigation leaves behind for the user: the session history (with the record
  of its mutations), the destination shown as pending, and the request and state of
  the content promise installed for rendering.\<close>

definition committed :: "root \<Rightarrow> history \<times> location \<times> string \<times> jsval promise" where
  "committed s =
     (window_history s, nextLocation s,
      url (network s ! contentPromise s), content (network s ! contentPromise s))"

text \<open>A request of \<open>navigate\<close> whose token is no longer the one in \<open>latestNav\<close>.\<close>

definition stale :: "root \<Rightarrow> nat \<Rightarrow> bool" where
  "stale s p = (\<exists>t l r. handler (network s ! p) = Some (t, l, r) \<and> latestNav s \<noteq> Some t)"

text \<open>The installed content promise names an issued request, and a request whose token
  has been replaced is older than the installed content promise.\<close>

definition wf :: "root \<Rightarrow> bool" where
  "wf s = (contentPromise s < length (network s) \<and>
           (\<forall>p < length (network s). \<forall>t l r.
               handler (network s ! p) = Some (t, l, r) \<longrightarrow>
               latestNav s = Some t \<or> p < contentPromise s))"


section \<open>Handlers as state updates\<close>

text \<open>Each handler, written out as one update of the state.\<close>

lemma navigate_eq:
  "navigate s l opts =
     s\<lparr>latestNav := Some (Symbol (symbols s) (''Nav for '' @ l)),
       nextLocation := l,
       contentPromise := length (network s),
       network := network s @
         [\<lparr>url = ''/rsc'' @ l,
           handler = Some (Symbol (symbols s) (''Nav for '' @ l), l, replace_of opts),
           fetched = Pending, content = Pending\<rparr>],
       symbols := Suc (symbols s)\<rparr>"
  by (simp add: navigate_def fetchContent_def fetch_def then_handler_def Let_def)

lemma handlePopState_eq:
  "handlePopState s =
     s\<lparr>nextLocation := h_current (window_history s),
       contentPromise := length (network s),
       network := network s @
         [\<lparr>url = ''/rsc'' @ h_current (window_history s), handler = None,
           fetched = Pending, content = Pending\<rparr>]\<rparr>"
  by (simp add: handlePopState_def fetchContent_def fetch_def getGlobalLocation_def Let_def)

lemma settle_ignored:
  "\<not> (p < length (network s) \<and> fetched (network s ! p) = Pending) \<Longrightarrow> settle s p out = s"
  by (auto simp add: settle_def)

lemma settle_rejected:
  "p < length (network s) \<Longrightarrow> fetched (network s ! p) = Pending \<Longrightarrow>
   settle s p NetworkFailure =
     s\<lparr>network := (network s)[p := (network s ! p)\<lparr>fetched := Rejected, content := Rejected\<rparr>]\<rparr>"
  by (simp add: settle_def Let_def)

lemma settle_plain:
  "p < length (network s) \<Longrightarrow> fetched (network s ! p) = Pending \<Longrightarrow>
   handler (network s ! p) = None \<Longrightarrow>
   settle s p (HttpResponse st) =
     s\<lparr>network := (network s)[p := (network s ! p)
         \<lparr>fetched := Fulfilled \<lparr>status = st, resp_url = url (network s ! p)\<rparr>,
          content := Fulfilled (Response \<lparr>status = st, resp_url = url (network s ! p)\<rparr>)\<rparr>]\<rparr>"
  by (simp add: settle_def Let_def)

lemma settle_superseded:
  "p < length (network s) \<Longrightarrow> fetched (network s ! p) = Pending \<Longrightarrow>
   handler (network s ! p) = Some (t, l, r) \<Longrightarrow> latestNav s \<noteq> Some t \<Longrightarrow>
   settle s p (HttpResponse st) =
     s\<lparr>network := (network s)[p := (network s ! p)
         \<lparr>fetched := Fulfilled \<lparr>status = st, resp_url = url (network s ! p)\<rparr>,
          content := Fulfilled Undefined\<rparr>]\<rparr>"
  by (auto simp add: settle_def on_response_def Let_def)

lemma settle_commit:
  "p < length (network s) \<Longrightarrow> fetched (network s ! p) = Pending \<Longrightarrow>
   handler (network s ! p) = Some (t, l, r) \<Longrightarrow> latestNav s = Some t \<Longrightarrow>
   settle s p (HttpResponse st) =
     s\<lparr>window_history :=
         (if r then replaceState l (window_history s) else pushState l (window_history s)),
       network := (network s)[p := (network s ! p)
         \<lparr>fetched := Fulfilled \<lparr>status = st, resp_url = url (network s ! p)\<rparr>,
          content := Fulfilled (Response \<lparr>status = st, resp_url = url (network s ! p)\<rparr>)\<rparr>]\<rparr>"
  by (auto simp add: settle_def on_response_def Let_def)

section \<open>Invariants of every run\<close>

lemma wf_init: "wf (init w)"
  by (simp add: wf_def init_def fetchContent_def fetch_def)

lemma wf_navigate: "wf s \<Longrightarrow> wf (navigate s l opts)"
  by (auto simp add: wf_def navigate_eq nth_append)

lemma wf_handlePopState: "wf s \<Longrightarrow> wf (handlePopState s)"
  by (auto simp add: wf_def handlePopState_eq nth_append)

lemma wf_window: "wf (s\<lparr>window_history := w\<rparr>) = wf s"
  by (simp add: wf_def)

text \<open>Settling touches the promises of one request and, at most, the history.\<close>

lemma settle_frame:
  "latestNav (settle s p out) = latestNav s"
  "nextLocation (settle s p out) = nextLocation s"
  "contentPromise (settle s p out) = contentPromise s"
  "symbols (settle s p out) = symbols s"
  "length (network (settle s p out)) = length (network s)"
  "map handler (network (settle s p out)) = map handler (network s)"
  "map url (network (settle s p out)) = map url (network s)"
  by (auto simp add: settle_def on_response_def Let_def map_update list_update_same_conv
           split: promise.splits option.splits prod.splits)

lemma settle_handler:
  "q < length (network s) \<Longrightarrow> handler (network (settle s p out) ! q) = handler (network s ! q)"
  using settle_frame(6)[of s p out] settle_frame(5)[of s p out]
  by (metis nth_map)

lemma settle_other:
  "q \<noteq> p \<Longrightarrow> network (settle s p out) ! q = network s ! q"
  by (auto simp add: settle_def on_response_def Let_def
           split: promise.splits option.splits prod.splits)

lemma wf_settle: "wf s \<Longrightarrow> wf (settle s p out)"
  by (simp add: wf_def settle_frame settle_handler)

lemma wf_step: "wf s \<Longrightarrow> wf (step s e)"
  by (cases e) (auto simp add: wf_navigate wf_handlePopState wf_window wf_settle
                     split: option.splits)

lemma wf_run: "wf s \<Longrightarrow> wf (run s es)"
  unfolding run_def by (induction es arbitrary: s) (simp_all add: wf_step)

lemma wf_reachable: "wf (run (init w) es)"
  by (rule wf_run [OF wf_init])

lemma step_length_mono: "length (network s) \<le> length (network (step s e))"
  by (cases e) (auto simp add: navigate_eq handlePopState_eq settle_frame split: option.splits)

lemma step_contentPromise_mono: "wf s \<Longrightarrow> contentPromise s \<le> contentPromise (step s e)"
  by (cases e) (auto simp add: navigate_eq handlePopState_eq settle_frame wf_def split: option.splits)

lemma run_contentPromise_mono: "wf s \<Longrightarrow> contentPromise s \<le> contentPromise (run s es)"
proof (induction es arbitrary: s)
  case Nil
  then show ?case by (simp add: run_def)
next
  case (Cons e es)
  have "contentPromise s \<le> contentPromise (step s e)"
    by (rule step_contentPromise_mono [OF Cons.prems])
  also have "\<dots> \<le> contentPromise (run (step s e) es)"
    by (rule Cons.IH [OF wf_step [OF Cons.prems]])
  finally show ?case by (simp add: run_def)
qed

lemma settle_settled:
  "p < length (network s) \<Longrightarrow> fetched (network s ! p) \<noteq> Pending \<Longrightarrow>
   network (settle s q out) ! p = network s ! p"
  by (cases "q = p") (simp_all add: settle_other settle_ignored)

lemma step_settled:
  "p < length (network s) \<Longrightarrow> fetched (network s ! p) \<noteq> Pending \<Longrightarrow>
   network (step s e) ! p = network s ! p"
  by (cases e) (auto simp add: navigate_eq handlePopState_eq settle_settled nth_append
                     split: option.splits)

lemma run_settled:
  "p < length (network s) \<Longrightarrow> fetched (network s ! p) \<noteq> Pending \<Longrightarrow>
   network (run s es) ! p = network s ! p"
proof (induction es arbitrary: s)
  case Nil
  then show ?case by (simp add: run_def)
next
  case (Cons e es)
  have len: "p < length (network (step s e))"
    using Cons.prems(1) step_length_mono [of s e] by simp
  have same: "network (step s e) ! p = network s ! p"
    by (rule step_settled [OF Cons.prems])
  have "network (run (step s e) es) ! p = network (step s e) ! p"
    using Cons.IH [OF len] same Cons.prems(2) by simp
  with same show ?case by (simp add: run_def)
qed

text \<open>Runs of settlements, and of calls of \<open>navigate\<close>.\<close>

lemma run_append: "run s (es @ fs) = run (run s es) fs"
  by (simp add: run_def)

lemma run_Cons: "run s (e # es) = run (step s e) es"
  by (simp add: run_def)

lemma run_Nil: "run s [] = s"
  by (simp add: run_def)

lemma settle_stale_window:
  assumes "p < length (network s)" "stale s p"
  shows "window_history (settle s p out) = window_history s"
proof (cases "fetched (network s ! p) = Pending")
  case False
  then show ?thesis by (simp add: settle_ignored)
next
  case True
  from assms(2) obtain t l r
    where h: "handler (network s ! p) = Some (t, l, r)" "latestNav s \<noteq> Some t"
    by (auto simp add: stale_def)
  show ?thesis
  proof (cases out)
    case NetworkFailure
    with assms(1) True show ?thesis by (simp add: settle_rejected)
  next
    case (HttpResponse st)
    with assms(1) True h show ?thesis by (simp add: settle_superseded)
  qed
qed

lemma stale_settle:
  "q < length (network s) \<Longrightarrow> stale (settle s p out) q = stale s q"
  by (simp add: stale_def settle_handler settle_frame)

lemma settles_frame:
  "latestNav (run s (map (case_prod Settle) rs)) = latestNav s
   \<and> nextLocation (run s (map (case_prod Settle) rs)) = nextLocation s
   \<and> contentPromise (run s (map (case_prod Settle) rs)) = contentPromise s
   \<and> length (network (run s (map (case_prod Settle) rs))) = length (network s)
   \<and> map handler (network (run s (map (case_prod Settle) rs))) = map handler (network s)"
proof (induction rs arbitrary: s)
  case Nil
  show ?case by (simp add: run_Nil)
next
  case (Cons x rs)
  obtain p out where x: "x = (p, out)" by (cases x)
  show ?case using Cons.IH [of "settle s p out"] by (simp add: x run_Cons settle_frame)
qed

lemma settles_other:
  "K \<notin> fst ` set rs \<Longrightarrow> network (run s (map (case_prod Settle) rs)) ! K = network s ! K"
proof (induction rs arbitrary: s)
  case Nil
  show ?case by (simp add: run_Nil)
next
  case (Cons x rs)
  obtain p out where x: "x = (p, out)" by (cases x)
  from Cons.prems have "K \<noteq> p" "K \<notin> fst ` set rs" by (auto simp add: x)
  then show ?case using Cons.IH [of "settle s p out"] by (simp add: x run_Cons settle_other)
qed

lemma settles_stale_window:
  "\<forall>p \<in> fst ` set rs. p < length (network s) \<and> stale s p \<Longrightarrow>
   window_history (run s (map (case_prod Settle) rs)) = window_history s"
proof (induction rs arbitrary: s)
  case Nil
  show ?case by (simp add: run_Nil)
next
  case (Cons x rs)
  obtain p out where x: "x = (p, out)" by (cases x)
  from Cons.prems have p: "p < length (network s)" "stale s p" by (auto simp add: x)
  have "\<forall>q \<in> fst ` set rs. q < length (network (settle s p out)) \<and> stale (settle s p out) q"
    using Cons.prems by (auto simp add: x settle_frame stale_settle)
  then have "window_history (run (settle s p out) (map (case_prod Settle) rs))
             = window_history (settle s p out)"
    by (rule Cons.IH)
  then show ?case using p by (simp add: x run_Cons settle_stale_window)
qed

lemma settle_local:
  assumes "K < length (network a)" "K < length (network b)"
      and "network a ! K = network b ! K" "latestNav a = latestNav b"
      and "window_history a = window_history b"
  shows "window_history (settle a K out) = window_history (settle b K out)
       \<and> network (settle a K out) ! K = network (settle b K out) ! K"
  using assms
  by (auto simp add: settle_def on_response_def Let_def
           split: promise.splits option.splits prod.splits)

lemma navigates_props:
  "window_history (run s (map (case_prod Navigate) ns)) = window_history s
   \<and> length (network (run s (map (case_prod Navigate) ns))) = length (network s) + length ns
   \<and> (\<forall>p. length (network s) \<le> p \<and> p < length (network s) + length ns \<longrightarrow>
        (\<exists>t l r. handler (network (run s (map (case_prod Navigate) ns)) ! p) = Some (t, l, r)
                 \<and> sym_id t < symbols (run s (map (case_prod Navigate) ns))))"
proof (induction ns rule: rev_induct)
  case Nil
  show ?case by (auto simp add: run_Nil)
next
  case (snoc x ns)
  obtain l opts where x: "x = (l, opts)" by (cases x)
  let ?s = "run s (map (case_prod Navigate) ns)"
  have eq: "run s (map (case_prod Navigate) (ns @ [x])) = navigate ?s l opts"
    by (simp add: x run_append run_Cons run_Nil)
  show ?case unfolding eq using snoc.IH
    by (auto simp add: navigate_eq nth_append less_Suc_eq)
qed

lemma committed_navigate_settle:
  assumes "window_history a = window_history b"
  shows "committed (settle (navigate a l opts) (length (network a)) out)
       = committed (settle (navigate b l opts) (length (network b)) out)"
  using assms
  by (cases out)
     (simp_all add: committed_def settle_def navigate_eq on_response_def Let_def)












text \<open>What the \<open>popstate\<close> handler does: it reads the location the browser moved to, shows
  it as the pending destination, issues one request for it and installs the content
  promise; it calls neither \<open>pushState\<close> nor \<open>replaceState\<close>, and it leaves
  \<open>latestNav\<close> and the symbol counter as they are.\<close>

lemma handlePopState_effects:
  "nextLocation (handlePopState s) = getGlobalLocation (window_history s)
   \<and> map url (network (handlePopState s))
       = map url (network s) @ [''/rsc'' @ getGlobalLocation (window_history s)]
   \<and> contentPromise (handlePopState s) = length (network s)
   \<and> window_history (handlePopState s) = window_history s
   \<and> latestNav (handlePopState s) = latestNav s
   \<and> symbols (handlePopState s) = symbols s"
  by (simp add: handlePopState_eq getGlobalLocation_def)

section \<open>The fetcher\<close>

text \<open>
  C9.  For every location the request goes to the location prefixed by the fixed
  segment \<open>/rsc\<close>, and each call adds exactly one request to those already issued,
  whatever they are (an identical request already in flight is not reused).
\<close>

theorem fetchContent_one_request:
  "map url (snd (fetchContent location net)) = map url net @ [''/rsc'' @ location]
   \<and> length (snd (fetchContent location net)) = Suc (length net)
   \<and> fst (fetchContent location net) = length net
   \<and> fetched (snd (fetchContent location net) ! fst (fetchContent location net)) = Pending"
  by (simp add: fetchContent_def fetch_def)

text \<open>
  C6 (as the code has it).  The handle returned by \<open>fetchContent\<close> is rejected when the
  request suffers a network failure; a response fulfils the handle whatever its status,
  since the module checks no status; and settling a request, either way, issues no
  further request.
\<close>

theorem fetch_rejects_only_on_network_failure:
  assumes "p < length (network s)" "fetched (network s ! p) = Pending"
  shows "fetched (network (settle s p NetworkFailure) ! p) = Rejected
       \<and> fetched (network (settle s p (HttpResponse st)) ! p)
           = Fulfilled \<lparr>status = st, resp_url = url (network s ! p)\<rparr>
       \<and> map url (network (settle s p out)) = map url (network s)"
proof -
  have "fetched (network (settle s p (HttpResponse st)) ! p)
           = Fulfilled \<lparr>status = st, resp_url = url (network s ! p)\<rparr>"
    using assms
    by (auto simp add: settle_def on_response_def Let_def split: option.splits prod.splits)
  with assms show ?thesis by (simp add: settle_rejected settle_frame)
qed

text \<open>The same at the initial request of a fresh tab.\<close>

theorem fetch_rejects_only_on_network_failure_witness:
  "fetched (network (settle (init \<lparr>h_back = [], h_current = ''/'', h_forward = [], h_calls = []\<rparr>) 0
       NetworkFailure) ! 0) = Rejected
   \<and> fetched (network (settle (init \<lparr>h_back = [], h_current = ''/'', h_forward = [], h_calls = []\<rparr>) 0
       (HttpResponse 404)) ! 0) = Fulfilled \<lparr>status = 404, resp_url = ''/rsc/''\<rparr>
   \<and> map url (network (settle (init \<lparr>h_back = [], h_current = ''/'', h_forward = [], h_calls = []\<rparr>) 0
       NetworkFailure)) = [''/rsc/'']"
proof -
  let ?s = "init \<lparr>h_back = [], h_current = ''/'', h_forward = [], h_calls = []\<rparr>"
  have a: "0 < length (network ?s)" by (simp add: init_def fetchContent_def fetch_def)
  have b: "fetched (network ?s ! 0) = Pending" by (simp add: init_def fetchContent_def fetch_def)
  have c: "map url (network ?s) = [''/rsc/'']"
    by (simp add: init_def fetchContent_def fetch_def getGlobalLocation_def)
  have d: "url (network ?s ! 0) = ''/rsc/''"
    by (simp add: init_def fetchContent_def fetch_def getGlobalLocation_def)
  show ?thesis
    using fetch_rejects_only_on_network_failure [OF a b, of 404 NetworkFailure] c d by simp
qed

text \<open>C6 as stated fails: the server answers the initial request with status 500, which
  is not a success status, and the handle is fulfilled, not rejected.\<close>

theorem fetch_fulfils_on_server_error:
  "fetched (network (settle (init \<lparr>h_back = [], h_current = ''/'', h_forward = [], h_calls = []\<rparr>) 0
       (HttpResponse 500)) ! 0) = Fulfilled \<lparr>status = 500, resp_url = ''/rsc/''\<rparr>
   \<and> \<not> ok \<lparr>status = 500, resp_url = ''/rsc/''\<rparr>"
  by (simp add: settle_def init_def fetchContent_def fetch_def getGlobalLocation_def ok_def)

section \<open>Navigation\<close>

text \<open>
  C1.  Latest wins: from any state, after a non-empty sequence of calls of \<open>navigate\<close> and
  the settlement of all their requests, each once, in any order and with any outcome,
  the session history, the pending destination and the installed content promise (its
  request and its state) are what the last call alone, settled with the same outcome,
  produces from that state.
\<close>

theorem latest_wins:
  assumes ne: "navs \<noteq> []"
      and dist: "distinct (map fst rs)"
      and all: "set (map fst rs) = {length (network s) ..< length (network s) + length navs}"
  shows "committed (run s (map (case_prod Navigate) navs @ map (case_prod Settle) rs))
       = committed (run s [Navigate (fst (last navs)) (snd (last navs)),
                           Settle (length (network s))
                             (the (map_of rs (length (network s) + length navs - 1)))])"
proof -
  obtain ns l opts where navs: "navs = ns @ [(l, opts)]"
    using ne by (metis rev_exhaust surj_pair)
  let ?n = "length (network s)"
  let ?K = "?n + length ns"
  let ?a = "run s (map (case_prod Navigate) ns)"
  let ?sk = "navigate ?a l opts"
  have sk: "run s (map (case_prod Navigate) navs) = ?sk"
    by (simp add: navs run_append run_Cons run_Nil)
  have a: "window_history ?a = window_history s" "length (network ?a) = ?K"
    using navigates_props [of s ns] by simp_all
  have old: "\<exists>t l r. handler (network ?a ! p) = Some (t, l, r) \<and> sym_id t < symbols ?a"
    if "?n \<le> p" "p < ?K" for p
    using navigates_props [of s ns] that by simp
  have len_sk: "length (network ?sk) = Suc ?K" by (simp add: navigate_eq a)
  have cp_sk: "contentPromise ?sk = ?K" by (simp add: navigate_eq a)
  have stale_sk: "stale ?sk p" if "?n \<le> p" "p < ?K" for p
  proof -
    from old [OF that] obtain t l' r
      where h: "handler (network ?a ! p) = Some (t, l', r)" "sym_id t < symbols ?a" by blast
    then have "t \<noteq> Symbol (symbols ?a) (''Nav for '' @ l)" by auto
    with h that show ?thesis by (auto simp add: stale_def navigate_eq nth_append a)
  qed
  have "?K \<in> set (map fst rs)" using all by (simp add: navs)
  then obtain out where "(?K, out) \<in> set rs" by auto
  then obtain rs1 rs2 where rs: "rs = rs1 @ (?K, out) # rs2" by (meson split_list)
  have notin: "?K \<notin> fst ` set rs1" "?K \<notin> fst ` set rs2"
    using dist by (auto simp add: rs)
  have "map_of rs1 ?K = None" using notin(1) by (simp add: map_of_eq_None_iff)
  then have out: "the (map_of rs ?K) = out"
    by (simp add: rs map_add_def)
  have ids: "?n \<le> p \<and> p < ?K" if "p \<in> fst ` set rs1 \<union> fst ` set rs2" for p
  proof -
    from that have "p \<in> set (map fst rs)" by (auto simp add: rs)
    then have "?n \<le> p" "p < Suc ?K" using all by (simp_all add: navs)
    moreover have "p \<noteq> ?K" using that notin by auto
    ultimately show ?thesis by simp
  qed
  let ?s1 = "run ?sk (map (case_prod Settle) rs1)"
  let ?s2 = "settle ?s1 ?K out"
  let ?s3 = "run ?s2 (map (case_prod Settle) rs2)"
  have final: "run s (map (case_prod Navigate) navs @ map (case_prod Settle) rs) = ?s3"
    by (simp add: run_append sk rs run_Cons)
  have f1: "latestNav ?s1 = latestNav ?sk" "nextLocation ?s1 = nextLocation ?sk"
    "contentPromise ?s1 = ?K" "length (network ?s1) = Suc ?K"
    "map handler (network ?s1) = map handler (network ?sk)"
    using settles_frame [of ?sk rs1] by (simp_all add: cp_sk len_sk)
  have "\<forall>p \<in> fst ` set rs1. p < length (network ?sk) \<and> stale ?sk p"
  proof
    fix p assume "p \<in> fst ` set rs1"
    then have "?n \<le> p \<and> p < ?K" using ids [of p] by simp
    then show "p < length (network ?sk) \<and> stale ?sk p"
      using stale_sk [of p] by (simp add: len_sk)
  qed
  then have w1: "window_history ?s1 = window_history ?sk"
    by (rule settles_stale_window)
  have k1: "network ?s1 ! ?K = network ?sk ! ?K"
    by (rule settles_other [OF notin(1)])
  have loc: "window_history ?s2 = window_history (settle ?sk ?K out)
           \<and> network ?s2 ! ?K = network (settle ?sk ?K out) ! ?K"
    by (rule settle_local) (simp_all add: f1 len_sk w1 k1)
  have stale2: "stale ?s2 p" if "?n \<le> p" "p < ?K" for p
  proof -
    have "handler (network ?s1 ! p) = handler (network ?sk ! p)"
      using f1(5) that by (metis f1(4) len_sk less_Suc_eq nth_map)
    then have "stale ?s1 p" using stale_sk [OF that] by (simp add: stale_def f1)
    then show ?thesis using that by (simp add: stale_settle f1)
  qed
  have f3: "nextLocation ?s3 = nextLocation ?sk" "contentPromise ?s3 = ?K"
    using settles_frame [of ?s2 rs2] by (simp_all add: settle_frame f1)
  have "\<forall>p \<in> fst ` set rs2. p < length (network ?s2) \<and> stale ?s2 p"
  proof
    fix p assume "p \<in> fst ` set rs2"
    then have "?n \<le> p \<and> p < ?K" using ids [of p] by simp
    then show "p < length (network ?s2) \<and> stale ?s2 p"
      using stale2 [of p] by (simp add: settle_frame f1)
  qed
  then have w3: "window_history ?s3 = window_history ?s2"
    by (rule settles_stale_window)
  have k3: "network ?s3 ! ?K = network ?s2 ! ?K"
    by (rule settles_other [OF notin(2)])
  have "committed ?s3 = committed (settle ?sk ?K out)"
    by (simp add: committed_def f3 w3 k3 loc settle_frame cp_sk)
  also have "\<dots> = committed (settle (navigate s l opts) ?n out)"
    using committed_navigate_settle [OF a(1), of l opts out] by (simp add: a)
  also have "\<dots> = committed (run s [Navigate (fst (last navs)) (snd (last navs)),
                           Settle ?n (the (map_of rs (?n + length navs - 1)))])"
    using out by (simp add: navs run_Cons run_Nil)
  finally show ?thesis by (simp add: final)
qed

text \<open>Two overlapping navigations in a fresh tab, the later one settling first.\<close>

theorem latest_wins_witness:
  "committed (run (init \<lparr>h_back = [], h_current = ''/'', h_forward = [], h_calls = []\<rparr>)
      [Navigate ''/a'' None, Navigate ''/b'' (Some \<lparr>replace = Some True\<rparr>),
       Settle 2 (HttpResponse 200), Settle 1 NetworkFailure])
   = committed (run (init \<lparr>h_back = [], h_current = ''/'', h_forward = [], h_calls = []\<rparr>)
      [Navigate ''/b'' (Some \<lparr>replace = Some True\<rparr>), Settle 1 (HttpResponse 200)])"
proof -
  have n: "length (network (init \<lparr>h_back = [], h_current = ''/'', h_forward = [], h_calls = []\<rparr>)) = 1"
    by (simp add: init_def fetchContent_def fetch_def)
  have ids: "set (map fst [(2::nat, HttpResponse 200), (1, NetworkFailure)]) = {1 ..< 1 + 2}"
    by auto
  show ?thesis
    using latest_wins [of "[(''/a'', None), (''/b'', Some \<lparr>replace = Some True\<rparr>)]"
        "[(2, HttpResponse 200), (1, NetworkFailure)]"
        "init \<lparr>h_back = [], h_current = ''/'', h_forward = [], h_calls = []\<rparr>"]
    unfolding n using ids by simp
qed

text \<open>
  C2, at the run that shows the defect.  In a fresh tab the user navigates to \<open>/a\<close>, which
  commits, then to \<open>/b\<close>, and presses Back while \<open>/b\<close> is still loading; the fetch for
  \<open>/b\<close> is fulfilled afterwards.  The \<open>popstate\<close> handler has minted no token, so the
  token of \<open>/b\<close> is still the latest and its callback pushes \<open>/b\<close> onto the history,
  while the pending destination and the installed content are those of \<open>/\<close>.
\<close>

theorem popstate_leaves_older_navigation_latest:
  "h_calls (window_history (run (init \<lparr>h_back = [], h_current = ''/'', h_forward = [], h_calls = []\<rparr>)
      [Settle 0 (HttpResponse 200), Navigate ''/a'' None, Settle 1 (HttpResponse 200),
       Navigate ''/b'' None, Back, Settle 2 (HttpResponse 200)]))
     = [PushState ''/a'', PushState ''/b'']
   \<and> h_current (window_history (run (init \<lparr>h_back = [], h_current = ''/'', h_forward = [], h_calls = []\<rparr>)
      [Settle 0 (HttpResponse 200), Navigate ''/a'' None, Settle 1 (HttpResponse 200),
       Navigate ''/b'' None, Back, Settle 2 (HttpResponse 200)])) = ''/b''
   \<and> nextLocation (run (init \<lparr>h_back = [], h_current = ''/'', h_forward = [], h_calls = []\<rparr>)
      [Settle 0 (HttpResponse 200), Navigate ''/a'' None, Settle 1 (HttpResponse 200),
       Navigate ''/b'' None, Back, Settle 2 (HttpResponse 200)]) = ''/''
   \<and> contentPromise (run (init \<lparr>h_back = [], h_current = ''/'', h_forward = [], h_calls = []\<rparr>)
      [Settle 0 (HttpResponse 200), Navigate ''/a'' None, Settle 1 (HttpResponse 200),
       Navigate ''/b'' None, Back, Settle 2 (HttpResponse 200)]) = 3
   \<and> latestNav (run (init \<lparr>h_back = [], h_current = ''/'', h_forward = [], h_calls = []\<rparr>)
      [Settle 0 (HttpResponse 200), Navigate ''/a'' None, Settle 1 (HttpResponse 200),
       Navigate ''/b'' None, Back]) = Some (Symbol 1 ''Nav for /b'')"
  by code_simp

text \<open>
  C3.  Superseded navigations are silent: in every reachable state, when a request of
  \<open>navigate\<close> whose token is no longer the latest settles, with a response or with a
  failure, the session history (and the record of its mutations), \<open>latestNav\<close>,
  \<open>nextLocation\<close> and \<open>contentPromise\<close> stay as they are, the installed content promise
  is another one, and what the error boundary sees does not change.
\<close>

theorem superseded_silent:
  assumes reach: "s = run (init w) es"
      and p: "p < length (network s)" "fetched (network s ! p) = Pending"
      and h: "handler (network s ! p) = Some (t, l, r)"
      and stale: "latestNav s \<noteq> Some t"
  shows "window_history (settle s p out) = window_history s
       \<and> latestNav (settle s p out) = latestNav s
       \<and> nextLocation (settle s p out) = nextLocation s
       \<and> contentPromise (settle s p out) = contentPromise s
       \<and> contentPromise s \<noteq> p
       \<and> error_surfaced (settle s p out) = error_surfaced s"
proof -
  have "wf s" using reach by (simp add: wf_reachable)
  then have lt: "p < contentPromise s"
    using p(1) h stale by (auto simp add: wf_def)
  have win: "window_history (settle s p out) = window_history s"
  proof (cases out)
    case NetworkFailure
    then show ?thesis using p by (simp add: settle_rejected)
  next
    case (HttpResponse st)
    then show ?thesis using p h stale by (simp add: settle_superseded)
  qed
  have "network (settle s p out) ! contentPromise s = network s ! contentPromise s"
    using lt by (simp add: settle_other)
  then have "error_surfaced (settle s p out) = error_surfaced s"
    by (simp add: error_surfaced_def settle_frame)
  with win lt show ?thesis by (simp add: settle_frame)
qed

text \<open>The first of two overlapping navigations fails after the second has started.\<close>

theorem superseded_silent_witness:
  "contentPromise (run (init \<lparr>h_back = [], h_current = ''/'', h_forward = [], h_calls = []\<rparr>)
       [Navigate ''/a'' None, Navigate ''/b'' None]) \<noteq> 1
   \<and> window_history (settle (run (init \<lparr>h_back = [], h_current = ''/'', h_forward = [], h_calls = []\<rparr>)
       [Navigate ''/a'' None, Navigate ''/b'' None]) 1 NetworkFailure)
     = \<lparr>h_back = [], h_current = ''/'', h_forward = [], h_calls = []\<rparr>
   \<and> \<not> error_surfaced (settle (run (init \<lparr>h_back = [], h_current = ''/'', h_forward = [], h_calls = []\<rparr>)
       [Navigate ''/a'' None, Navigate ''/b'' None]) 1 NetworkFailure)"
proof -
  let ?s = "run (init \<lparr>h_back = [], h_current = ''/'', h_forward = [], h_calls = []\<rparr>)
       [Navigate ''/a'' None, Navigate ''/b'' None]"
  have a: "1 < length (network ?s)" by code_simp
  have b: "fetched (network ?s ! 1) = Pending" by code_simp
  have c: "handler (network ?s ! 1) = Some (Symbol 0 ''Nav for /a'', ''/a'', False)" by code_simp
  have d: "latestNav ?s \<noteq> Some (Symbol 0 ''Nav for /a'')" by code_simp
  have w: "window_history ?s = \<lparr>h_back = [], h_current = ''/'', h_forward = [], h_calls = []\<rparr>"
    by code_simp
  have e: "\<not> error_surfaced ?s" by code_simp
  show ?thesis
    using superseded_silent [OF refl a b c d, of NetworkFailure] w e by simp
qed

text \<open>
  C4.  No premature history mutation: a step that calls \<open>pushState\<close> or \<open>replaceState\<close> is
  the fulfilment of a still pending request of \<open>navigate\<close> whose token is the latest at
  that moment, and it makes exactly one call, for the destination of that navigation.
  So no call of \<open>navigate\<close>, no \<open>popstate\<close>, no rejection and no superseded fulfilment
  mutates the history.
\<close>

theorem history_only_after_latest_success:
  "h_calls (window_history (step s e)) \<noteq> h_calls (window_history s) \<Longrightarrow>
   \<exists>p st t l r.
      e = Settle p (HttpResponse st) \<and> p < length (network s)
      \<and> fetched (network s ! p) = Pending
      \<and> handler (network s ! p) = Some (t, l, r) \<and> latestNav s = Some t
      \<and> h_calls (window_history (step s e))
          = h_calls (window_history s) @ [if r then ReplaceState l else PushState l]"
proof (cases e)
  case (Navigate loc opts)
  assume "h_calls (window_history (step s e)) \<noteq> h_calls (window_history s)"
  with Navigate show ?thesis by (simp add: navigate_eq)
next
  case Back
  assume "h_calls (window_history (step s e)) \<noteq> h_calls (window_history s)"
  with Back show ?thesis
    by (auto simp add: handlePopState_eq go_back_def split: option.splits list.splits)
next
  case Forward
  assume "h_calls (window_history (step s e)) \<noteq> h_calls (window_history s)"
  with Forward show ?thesis
    by (auto simp add: handlePopState_eq go_forward_def split: option.splits list.splits)
next
  case (Settle p out)
  assume ch: "h_calls (window_history (step s e)) \<noteq> h_calls (window_history s)"
  have live: "p < length (network s) \<and> fetched (network s ! p) = Pending"
  proof (rule ccontr)
    assume "\<not> (p < length (network s) \<and> fetched (network s ! p) = Pending)"
    then have "settle s p out = s" by (rule settle_ignored)
    with ch Settle show False by simp
  qed
  show ?thesis
  proof (cases out)
    case NetworkFailure
    with ch Settle live show ?thesis by (simp add: settle_rejected)
  next
    case (HttpResponse st)
    show ?thesis
    proof (cases "handler (network s ! p)")
      case None
      with ch Settle live HttpResponse show ?thesis by (simp add: settle_plain)
    next
      case (Some cb)
      obtain t l r where cb: "cb = (t, l, r)" by (cases cb)
      show ?thesis
      proof (cases "latestNav s = Some t")
        case True
        with Settle live HttpResponse Some cb show ?thesis
          by (simp add: settle_commit pushState_def replaceState_def)
      next
        case False
        with ch Settle live HttpResponse Some cb show ?thesis
          by (simp add: settle_superseded)
      qed
    qed
  qed
qed

text \<open>The one navigation of a fresh tab commits.\<close>

theorem history_only_after_latest_success_witness:
  "h_calls (window_history (step (navigate (init \<lparr>h_back = [], h_current = ''/'', h_forward = [], h_calls = []\<rparr>) ''/a'' None)
       (Settle 1 (HttpResponse 200)))) = [PushState ''/a'']
   \<and> (\<exists>p st t l r.
        Settle 1 (HttpResponse 200) = Settle p (HttpResponse st)
        \<and> fetched (network (navigate (init \<lparr>h_back = [], h_current = ''/'', h_forward = [], h_calls = []\<rparr>) ''/a'' None) ! p) = Pending
        \<and> handler (network (navigate (init \<lparr>h_back = [], h_current = ''/'', h_forward = [], h_calls = []\<rparr>) ''/a'' None) ! p) = Some (t, l, r)
        \<and> latestNav (navigate (init \<lparr>h_back = [], h_current = ''/'', h_forward = [], h_calls = []\<rparr>) ''/a'' None) = Some t)"
proof -
  let ?s = "navigate (init \<lparr>h_back = [], h_current = ''/'', h_forward = [], h_calls = []\<rparr>) ''/a'' None"
  have a: "h_calls (window_history (step ?s (Settle 1 (HttpResponse 200)))) = [PushState ''/a'']"
    by code_simp
  have b: "h_calls (window_history ?s) = []" by code_simp
  have "h_calls (window_history (step ?s (Settle 1 (HttpResponse 200)))) \<noteq> h_calls (window_history ?s)"
    unfolding a b by simp
  from history_only_after_latest_success [OF this] a show ?thesis by blast
qed




text \<open>
  C8.  History mode: without options, with empty options and with \<open>replace: false\<close> a
  committing navigation pushes; with \<open>replace: true\<close> it replaces.  Replacing
  overwrites the location of the current entry and keeps the entries behind and ahead
  of it; pushing puts the destination after the current entry, which joins the entries
  behind.
\<close>

theorem history_mode:
  "window_history (settle (navigate s loc None) (length (network s)) (HttpResponse st))
     = pushState loc (window_history s)
   \<and> window_history (settle (navigate s loc (Some \<lparr>replace = None\<rparr>)) (length (network s))
        (HttpResponse st)) = pushState loc (window_history s)
   \<and> window_history (settle (navigate s loc (Some \<lparr>replace = Some False\<rparr>))
        (length (network s)) (HttpResponse st)) = pushState loc (window_history s)
   \<and> window_history (settle (navigate s loc (Some \<lparr>replace = Some True\<rparr>))
        (length (network s)) (HttpResponse st)) = replaceState loc (window_history s)
   \<and> h_current (replaceState loc h) = loc
   \<and> h_back (replaceState loc h) = h_back h
   \<and> h_forward (replaceState loc h) = h_forward h
   \<and> h_current (pushState loc h) = loc
   \<and> h_back (pushState loc h) = h_current h # h_back h
   \<and> h_forward (pushState loc h) = []"
  by (simp add: settle_def navigate_eq on_response_def replace_of_def
                pushState_def replaceState_def Let_def)

text \<open>
  C10.  In every reachable state, when the fetch of a superseded navigation is fulfilled,
  the promise handed to \<open>createFromFetch\<close> is fulfilled with \<open>undefined\<close> while the fetch
  promise holds the response; and whatever happens later, that content promise is never
  the installed one and keeps that value.
\<close>

theorem superseded_undefined:
  assumes reach: "s = run (init w) es"
      and p: "p < length (network s)" "fetched (network s ! p) = Pending"
      and h: "handler (network s ! p) = Some (t, l, r)"
      and stale: "latestNav s \<noteq> Some t"
  shows "content (network (settle s p (HttpResponse st)) ! p) = Fulfilled Undefined
       \<and> fetched (network (settle s p (HttpResponse st)) ! p)
           = Fulfilled \<lparr>status = st, resp_url = url (network s ! p)\<rparr>
       \<and> (\<forall>es'. contentPromise (run (settle s p (HttpResponse st)) es') \<noteq> p
              \<and> content (network (run (settle s p (HttpResponse st)) es') ! p)
                  = Fulfilled Undefined)"
proof -
  let ?s' = "settle s p (HttpResponse st)"
  have wf: "wf s" using reach by (simp add: wf_reachable)
  then have lt: "p < contentPromise s"
    using p(1) h stale by (auto simp add: wf_def)
  have eq: "?s' = s\<lparr>network := (network s)[p := (network s ! p)
         \<lparr>fetched := Fulfilled \<lparr>status = st, resp_url = url (network s ! p)\<rparr>,
          content := Fulfilled Undefined\<rparr>]\<rparr>"
    by (rule settle_superseded [OF p h stale])
  have now: "content (network ?s' ! p) = Fulfilled Undefined"
            "fetched (network ?s' ! p) = Fulfilled \<lparr>status = st, resp_url = url (network s ! p)\<rparr>"
    using p(1) by (simp_all add: eq)
  have wf': "wf ?s'" by (rule wf_settle [OF wf])
  have later: "contentPromise (run ?s' es') \<noteq> p
             \<and> content (network (run ?s' es') ! p) = Fulfilled Undefined" for es'
  proof -
    have "contentPromise ?s' \<le> contentPromise (run ?s' es')"
      by (rule run_contentPromise_mono [OF wf'])
    then have a: "contentPromise (run ?s' es') \<noteq> p"
      using lt by (simp add: settle_frame)
    have "network (run ?s' es') ! p = network ?s' ! p"
      using p(1) now(2) by (intro run_settled) (simp_all add: settle_frame)
    with a now show ?thesis by simp
  qed
  with now show ?thesis by simp
qed

text \<open>The first of two overlapping navigations is fulfilled after the second has started;
  later the second commits and the user goes back.\<close>

theorem superseded_undefined_witness:
  "content (network (settle (run (init \<lparr>h_back = [], h_current = ''/'', h_forward = [], h_calls = []\<rparr>)
       [Navigate ''/a'' None, Navigate ''/b'' None]) 1 (HttpResponse 200)) ! 1) = Fulfilled Undefined
   \<and> contentPromise (run (settle (run (init \<lparr>h_back = [], h_current = ''/'', h_forward = [], h_calls = []\<rparr>)
       [Navigate ''/a'' None, Navigate ''/b'' None]) 1 (HttpResponse 200))
         [Settle 2 (HttpResponse 200), Back]) \<noteq> 1"
proof -
  let ?s = "run (init \<lparr>h_back = [], h_current = ''/'', h_forward = [], h_calls = []\<rparr>)
       [Navigate ''/a'' None, Navigate ''/b'' None]"
  have a: "1 < length (network ?s)" by code_simp
  have b: "fetched (network ?s ! 1) = Pending" by code_simp
  have c: "handler (network ?s ! 1) = Some (Symbol 0 ''Nav for /a'', ''/a'', False)" by code_simp
  have d: "latestNav ?s \<noteq> Some (Symbol 0 ''Nav for /a'')" by code_simp
  show ?thesis
    using superseded_undefined [OF refl a b c d, of 200] by simp
qed

end
